theory Spec2Isabelle
  imports Main
begin

section \<open>Lead deduplication (index.js): data model\<close>

text \<open>
  The script reads a JSON file, deduplicates its \<^verbatim>\<open>leads\<close> array by the fields
  \<^verbatim>\<open>_id\<close> and \<^verbatim>\<open>email\<close>, and writes the surviving objects and a changelog.

  A JavaScript value the script can meet is a value of parsed JSON, or \<^verbatim>\<open>undefined\<close>
  (what reading an absent property gives, and what the merge stores under \<^verbatim>\<open>_id\<close>
  or \<^verbatim>\<open>email\<close> when both sides lack the field).

  Boundaries of the model:
  \<^item> numbers are the safe integers, those of absolute value below \<open>2^53\<close>: a double
    holds each of them exactly, \<^verbatim>\<open>===\<close> on them is equality of the integers, and a
    template literal prints them as their plain decimal numeral (a JSON number with a
    fraction, with an exponent or of a greater magnitude is outside);
  \<^item> a string is a list of characters, one per UTF-16 code unit;
  \<^item> field names are not names that \<^verbatim>\<open>Object.prototype\<close> defines
    (\<^verbatim>\<open>__proto__\<close>, \<^verbatim>\<open>constructor\<close>, \<^verbatim>\<open>toString\<close>, ...), so that reading an
    absent field gives \<^verbatim>\<open>undefined\<close> and writing a field creates an own property;
  \<^item> every element of \<^verbatim>\<open>leads\<close> is an object.
\<close>

datatype jsval =
    JUndefined
  | JNull
  | JBool bool
  | JNum int
  | JStr string
  | JArr "jsval list"
  | JObj "(string \<times> jsval) list"

text \<open>
  An object is the list of its own properties in property order. The lists that stand for
  objects have distinct keys (\<open>wf_obj\<close>).
\<close>

type_synonym obj = "(string \<times> jsval) list"

definition wf_obj :: "obj \<Rightarrow> bool" where
  "wf_obj ob = distinct (map fst ob)"

text \<open>\<^verbatim>\<open>ob[k]\<close> and \<^verbatim>\<open>ob.k\<close>: the value of the property, \<^verbatim>\<open>undefined\<close> when absent.\<close>

definition obj_get :: "obj \<Rightarrow> string \<Rightarrow> jsval" where
  "obj_get ob k = (case map_of ob k of None \<Rightarrow> JUndefined | Some v \<Rightarrow> v)"

text \<open>
  Property order: the keys that are array indices (canonical decimal numerals below
  \<open>2^32 - 1\<close>) come first, in ascending numeric order, then the other keys in the order
  of their creation.
\<close>

definition is_digit :: "char \<Rightarrow> bool" where
  "is_digit c = (c \<in> set ''0123456789'')"

definition dec_val :: "string \<Rightarrow> nat" where
  "dec_val s = foldl (\<lambda>n c. 10 * n + (of_char c - 48)) 0 s"

definition is_index :: "string \<Rightarrow> bool" where
  "is_index k = (k \<noteq> [] \<and> list_all is_digit k \<and> (k = ''0'' \<or> hd k \<noteq> CHR ''0'')
                 \<and> dec_val k < 4294967295)"

fun insert_index :: "string \<Rightarrow> jsval \<Rightarrow> obj \<Rightarrow> obj" where
  "insert_index k v [] = [(k, v)]"
| "insert_index k v ((k', v') # rest) =
     (if is_index k' \<and> dec_val k' < dec_val k then (k', v') # insert_index k v rest
      else (k, v) # (k', v') # rest)"

text \<open>\<^verbatim>\<open>ob[k] = v\<close>: an existing property keeps its place, a new one is created.\<close>

definition obj_set :: "obj \<Rightarrow> string \<Rightarrow> jsval \<Rightarrow> obj" where
  "obj_set ob k v =
     (if k \<in> set (map fst ob) then map (\<lambda>(k', v'). if k' = k then (k', v) else (k', v')) ob
      else if is_index k then insert_index k v ob
      else ob @ [(k, v)])"

text \<open>\<^verbatim>\<open>{...lead}\<close>: a new object that receives the own properties of \<^verbatim>\<open>lead\<close> in order.\<close>

definition spread :: "obj \<Rightarrow> obj" where
  "spread lead = foldl (\<lambda>acc (k, v). obj_set acc k v) [] lead"

text \<open>
  \<^verbatim>\<open>a === b\<close>. Primitive values are equal when they are the same value. Arrays and
  objects are equal only when they are the same reference; every lead is parsed on its
  own, and the script compares a value of the incoming lead with a value that an
  earlier lead brought, so two arrays or objects it compares are never the same reference.
\<close>

fun strict_eq :: "jsval \<Rightarrow> jsval \<Rightarrow> bool" where
  "strict_eq (JArr _) _ = False"
| "strict_eq (JObj _) _ = False"
| "strict_eq a b = (a = b)"

subsection \<open>Conversion to string\<close>

text \<open>
  The numbers of the model are below \<open>2^53\<close>, hence below \<open>10^21\<close>, where the
  conversion of a number to a string turns to the exponent form: within the model a
  number prints as its decimal digits, with a minus sign when negative.
\<close>

fun show_nat :: "nat \<Rightarrow> string" where
  "show_nat n = (if n < 10 then [''0123456789'' ! n]
                 else show_nat (n div 10) @ [''0123456789'' ! (n mod 10)])"

definition show_int :: "int \<Rightarrow> string" where
  "show_int i = (if i < 0 then CHR ''-'' # show_nat (nat (- i)) else show_nat (nat i))"

fun join :: "string \<Rightarrow> string list \<Rightarrow> string" where
  "join sep [] = []"
| "join sep [s] = s"
| "join sep (s # t # rest) = s @ sep @ join sep (t # rest)"

text \<open>
  \<^verbatim>\<open>`${v}`\<close>: an array is its elements joined by commas, \<^verbatim>\<open>null\<close> and \<^verbatim>\<open>undefined\<close>
  elements giving the empty string; an object is \<^verbatim>\<open>[object Object]\<close>.
\<close>

fun to_string :: "jsval \<Rightarrow> string" where
  "to_string JUndefined = ''undefined''"
| "to_string JNull = ''null''"
| "to_string (JBool b) = (if b then ''true'' else ''false'')"
| "to_string (JNum n) = show_int n"
| "to_string (JStr s) = s"
| "to_string (JArr xs) =
     join '','' (map (\<lambda>x. case x of JUndefined \<Rightarrow> [] | JNull \<Rightarrow> [] | _ \<Rightarrow> to_string x) xs)"
| "to_string (JObj _) = ''[object Object]''"

subsection \<open>Dates\<close>

text \<open>
  \<^verbatim>\<open>new Date(v).getTime()\<close>: milliseconds since the epoch, \<open>None\<close> for \<^verbatim>\<open>NaN\<close>.
  The parser of date strings belongs to the JavaScript runtime; it is the parameter
  \<open>parse\<close>. A number is its own time value when it is within the range of a Date;
  \<^verbatim>\<open>undefined\<close> gives \<^verbatim>\<open>NaN\<close>; \<^verbatim>\<open>null\<close> and booleans convert to numbers; arrays
  and objects convert to a string first.
\<close>

fun getTime :: "(string \<Rightarrow> int option) \<Rightarrow> jsval \<Rightarrow> int option" where
  "getTime parse JUndefined = None"
| "getTime parse JNull = Some 0"
| "getTime parse (JBool b) = Some (if b then 1 else 0)"
| "getTime parse (JNum n) = (if \<bar>n\<bar> \<le> 8640000000000000 then Some n else None)"
| "getTime parse (JStr s) = parse s"
| "getTime parse v = parse (to_string v)"

text \<open>\<^verbatim>\<open>a >= b\<close> on time values: false as soon as one side is \<^verbatim>\<open>NaN\<close>.\<close>

fun time_ge :: "int option \<Rightarrow> int option \<Rightarrow> bool" where
  "time_ge (Some a) (Some b) = (b \<le> a)"
| "time_ge _ _ = False"

section \<open>The deduplication loop\<close>

text \<open>
  A record is the pair of the data object in its current iteration and the list of the
  objects of changed values, the most recent first.
\<close>

type_synonym lead_record = "obj \<times> obj list"

text \<open>\<^verbatim>\<open>findIndex\<close>: the first index whose element satisfies the test; \<open>None\<close> for \<open>-1\<close>.\<close>

fun findIndex :: "('a \<Rightarrow> bool) \<Rightarrow> 'a list \<Rightarrow> nat option" where
  "findIndex P [] = None"
| "findIndex P (x # xs) = (if P x then Some 0 else map_option Suc (findIndex P xs))"

text \<open>The test of line 55: the same \<^verbatim>\<open>_id\<close> or the same \<^verbatim>\<open>email\<close>.\<close>

definition matches :: "obj \<Rightarrow> lead_record \<Rightarrow> bool" where
  "matches lead r =
     (strict_eq (obj_get lead ''_id'') (obj_get (fst r) ''_id'')
      \<or> strict_eq (obj_get lead ''email'') (obj_get (fst r) ''email''))"

text \<open>Lines 72 to 79: the new data keeps the duplicated keys of the stored object.\<close>

definition newData :: "obj \<Rightarrow> obj \<Rightarrow> obj" where
  "newData original lead =
     (let dupedId = strict_eq (obj_get original ''_id'') (obj_get lead ''_id'');
          dupedEmail = strict_eq (obj_get original ''email'') (obj_get lead ''email'')
      in obj_set
           (obj_set (spread lead) ''_id''
              (if dupedId then obj_get original ''_id'' else obj_get lead ''_id''))
           ''email''
           (if dupedEmail then obj_get original ''email'' else obj_get lead ''email''))"

text \<open>Lines 82 to 90: the values of the original that the new data changes.\<close>

definition changed :: "obj \<Rightarrow> obj \<Rightarrow> obj" where
  "changed original nd =
     foldl (\<lambda>acc (key, val). if \<not> strict_eq (obj_get nd key) val then obj_set acc key val else acc)
       [] original"

text \<open>The body of \<^verbatim>\<open>leads.forEach\<close> (lines 51 to 103) on the array \<^verbatim>\<open>records\<close>.\<close>

definition step :: "(string \<Rightarrow> int option) \<Rightarrow> lead_record list \<Rightarrow> obj \<Rightarrow> lead_record list" where
  "step parse records lead =
     (case findIndex (matches lead) records of
        Some existingIndex \<Rightarrow>
          (let original = fst (records ! existingIndex);
               originalDate = getTime parse (obj_get original ''entryDate'');
               incomingDate = getTime parse (obj_get lead ''entryDate'')
           in if time_ge incomingDate originalDate
              then records[existingIndex :=
                     (newData original lead,
                      changed original (newData original lead) # snd (records ! existingIndex))]
              else records)
      | None \<Rightarrow> records @ [(lead, [])])"

definition reconcile :: "(string \<Rightarrow> int option) \<Rightarrow> obj list \<Rightarrow> lead_record list" where
  "reconcile parse leads = foldl (step parse) [] leads"

section \<open>The changelog (writeLog)\<close>

text \<open>
  Lines 176 to 182: every recorded value is put in front of what \<^verbatim>\<open>data\<close> holds for
  the property, with the \<^verbatim>\<open>==>\<close> indicator. The assignment writes into the data object
  of the record itself.
\<close>

definition apply_change :: "obj \<Rightarrow> obj \<Rightarrow> obj" where
  "apply_change data change =
     foldl (\<lambda>d (changedProp, changedVal).
              obj_set d changedProp
                (JStr (to_string changedVal @ '' ==> '' @ to_string (obj_get d changedProp))))
       data change"

definition apply_changes :: "obj \<Rightarrow> obj list \<Rightarrow> obj" where
  "apply_changes data changes = foldl apply_change data changes"

text \<open>
  Lines 187 to 191: the names are sorted with a comparison function that puts a longer
  second name first, and the length of the first name of the sorted array is taken.
  The sort is an insertion sort here; only the length of its first element is read,
  and that is the greatest length among the names (\<open>longestPropLength_max\<close> below).
  Of an empty array the first element is \<^verbatim>\<open>undefined\<close>, and reading \<^verbatim>\<open>.length\<close> of it
  throws a \<^verbatim>\<open>TypeError\<close>, which no \<^verbatim>\<open>try\<close> of \<^verbatim>\<open>writeLog\<close> encloses.
\<close>

datatype js_error = TypeError

definition compareFn :: "string \<Rightarrow> string \<Rightarrow> int" where
  "compareFn firstEl secondEl = (if length secondEl > length firstEl then 1 else - 1)"

fun insert_name :: "string \<Rightarrow> string list \<Rightarrow> string list" where
  "insert_name x [] = [x]"
| "insert_name x (y # ys) = (if compareFn x y > 0 then y # insert_name x ys else x # y # ys)"

definition sort_names :: "string list \<Rightarrow> string list" where
  "sort_names names = foldr insert_name names []"

definition longestPropLength :: "obj \<Rightarrow> js_error + nat" where
  "longestPropLength data =
     (case sort_names (map fst data) of [] \<Rightarrow> Inl TypeError | name # _ \<Rightarrow> Inr (length name))"

definition padStart :: "nat \<Rightarrow> string \<Rightarrow> string" where
  "padStart n s = replicate (n - length s) CHR '' '' @ s"

text \<open>Lines 201 to 203: one line for each property of the data object.\<close>

definition record_lines :: "nat \<Rightarrow> obj \<Rightarrow> string list" where
  "record_lines n data =
     map (\<lambda>(key, val). padStart n key @ '': '' @ to_string val @ [CHR 0x0A]) data"

text \<open>
  \<^verbatim>\<open>records.forEach\<close> of lines 171 to 204, with the index of the record and the log so
  far. The result is the log and the records as the loop leaves them, or the error thrown.
\<close>

fun render_loop :: "nat \<Rightarrow> string \<Rightarrow> lead_record list \<Rightarrow> js_error + (string \<times> lead_record list)" where
  "render_loop index fullLog [] = Inr (fullLog, [])"
| "render_loop index fullLog ((data, changes) # rest) =
     (let data' = apply_changes data changes
      in case longestPropLength data' of
           Inl e \<Rightarrow> Inl e
         | Inr longest \<Rightarrow>
             (let fullLog1 = (if index \<noteq> 0 then fullLog @ [CHR 0x0A] else fullLog);
                  fullLog2 = fullLog1 @ concat (record_lines longest data')
              in case render_loop (Suc index) fullLog2 rest of
                   Inl e \<Rightarrow> Inl e
                 | Inr (log, rest') \<Rightarrow> Inr (log, (data', changes) # rest')))"

text \<open>The string that \<^verbatim>\<open>writeLog\<close> hands to \<^verbatim>\<open>writeFile\<close>, and the records afterwards.\<close>

definition writeLog :: "lead_record list \<Rightarrow> js_error + (string \<times> lead_record list)" where
  "writeLog records = render_loop 0 [] records"

section \<open>Notions of the specification\<close>

text \<open>A parsed JSON object holds no \<^verbatim>\<open>undefined\<close>.\<close>

definition from_json :: "obj \<Rightarrow> bool" where
  "from_json ob = (JUndefined \<notin> set (map snd ob))"

text \<open>The own property names of an object.\<close>

definition fields :: "obj \<Rightarrow> string set" where
  "fields ob = set (map fst ob)"

text \<open>
  No two records share an identity-key value: the values of \<^verbatim>\<open>_id\<close> are pairwise
  different, and so are the values of \<^verbatim>\<open>email\<close>.
\<close>

definition keys_unique :: "lead_record list \<Rightarrow> bool" where
  "keys_unique rs =
     (\<forall>i < length rs. \<forall>j < length rs. i \<noteq> j \<longrightarrow> \<not> matches (fst (rs ! i)) (rs ! j))"

text \<open>
  A run in which every incoming lead matches at most one of the records of its moment.
\<close>

fun unambiguous :: "(string \<Rightarrow> int option) \<Rightarrow> lead_record list \<Rightarrow> obj list \<Rightarrow> bool" where
  "unambiguous parse records [] = True"
| "unambiguous parse records (lead # leads) =
     (length (filter (matches lead) records) \<le> 1 \<and> unambiguous parse (step parse records lead) leads)"

text \<open>
  The leads that create a record (those that match no record of their moment), in order:
  the creation-time objects of the records that the run adds.
\<close>

fun creation_maps :: "(string \<Rightarrow> int option) \<Rightarrow> lead_record list \<Rightarrow> obj list \<Rightarrow> obj list" where
  "creation_maps parse records [] = []"
| "creation_maps parse records (lead # leads) =
     (case findIndex (matches lead) records of
        None \<Rightarrow> lead # creation_maps parse (step parse records lead) leads
      | Some _ \<Rightarrow> creation_maps parse (step parse records lead) leads)"

text \<open>
  Applying a change-set as a reverse delta writes each of its values back; walking the
  change-sets from the most recent (the head) to the oldest.
\<close>

definition revert_change :: "obj \<Rightarrow> obj \<Rightarrow> obj" where
  "revert_change cur change = foldl (\<lambda>m (k, v). obj_set m k v) cur change"

definition revert :: "obj \<Rightarrow> obj list \<Rightarrow> obj" where
  "revert cur changes = foldl revert_change cur changes"

text \<open>
  The values recorded for a field in the change-sets, in storage order, and the chain
  \<^verbatim>\<open>oldest ==> ... ==> current\<close> of the values \<open>olds\<close> (oldest first) and the current value.
\<close>

definition recorded :: "string \<Rightarrow> obj list \<Rightarrow> jsval list" where
  "recorded p changes = map snd (filter (\<lambda>e. fst e = p) (concat changes))"

definition chain :: "jsval list \<Rightarrow> jsval \<Rightarrow> string" where
  "chain olds cur = concat (map (\<lambda>v. to_string v @ '' ==> '') olds) @ to_string cur"

text \<open>
  What the loop keeps true of a record and the object it was created from: the data
  object is well formed; reverting the changes gives back the created value of every
  field the record was created with; each such field is still in the data or is recorded
  in a change-set; and only \<^verbatim>\<open>_id\<close> and \<^verbatim>\<open>email\<close> can hold \<^verbatim>\<open>undefined\<close>.
\<close>

definition history_ok :: "obj \<Rightarrow> lead_record \<Rightarrow> bool" where
  "history_ok created r =
     (wf_obj (fst r)
      \<and> (\<forall>k \<in> fields created. obj_get (revert (fst r) (snd r)) k = obj_get created k)
      \<and> (\<forall>k \<in> fields created. k \<in> fields (fst r) \<or> k \<in> fields (concat (snd r)))
      \<and> (\<forall>k. (k, JUndefined) \<in> set (fst r) \<longrightarrow> k = ''_id'' \<or> k = ''email''))"

section \<open>Example inputs\<close>

text \<open>
  The values of \<^verbatim>\<open>Date.parse\<close> on the date strings of the examples (milliseconds since
  the epoch, the date-only form being UTC); any other string of the examples is not a date.
\<close>

definition demo_parse :: "string \<Rightarrow> int option" where
  "demo_parse = map_of [(''2020-01-01'', 1577836800000), (''2020-01-02'', 1577923200000),
                        (''2019-12-01'', 1575158400000)]"

definition lead_al :: obj where
  "lead_al = [(''_id'', JStr ''1''), (''email'', JStr ''a@x.com''),
              (''entryDate'', JStr ''2020-01-01''), (''name'', JStr ''Al'')]"

definition lead_bob :: obj where
  "lead_bob = [(''_id'', JStr ''1''), (''email'', JStr ''b@x.com''),
               (''entryDate'', JStr ''2020-01-02''), (''name'', JStr ''Bob'')]"

definition lead_old :: obj where
  "lead_old = [(''_id'', JStr ''1''), (''email'', JStr ''c@x.com''),
               (''entryDate'', JStr ''2019-12-01''), (''name'', JStr ''Old'')]"

definition lead_bad :: obj where
  "lead_bad = [(''_id'', JStr ''1''), (''email'', JStr ''d@x.com''),
               (''entryDate'', JStr ''soon''), (''name'', JStr ''Bad'')]"

definition lead_two :: obj where
  "lead_two = [(''_id'', JStr ''2''), (''email'', JStr ''b@x.com''),
               (''entryDate'', JStr ''2020-01-01''), (''name'', JStr ''Bea'')]"

definition lead_phone :: obj where
  "lead_phone = [(''_id'', JStr ''1''), (''email'', JStr ''a@x.com''),
                 (''entryDate'', JStr ''2020-01-02''), (''name'', JStr ''Al''),
                 (''phone'', JStr ''555'')]"

definition lead_x :: obj where
  "lead_x = [(''id'', JNum 1), (''email'', JStr ''p@x.com''), (''entryDate'', JStr ''2020-01-01'')]"

definition lead_y :: obj where
  "lead_y = [(''id'', JNum 2), (''email'', JStr ''q@x.com''), (''entryDate'', JStr ''2020-01-02'')]"

definition lead_cy :: obj where
  "lead_cy = [(''_id'', JStr ''1''), (''email'', JStr ''b@x.com''),
              (''entryDate'', JStr ''2020-01-02''), (''name'', JStr ''Cy'')]"

text \<open>The record that the leads of Al, Bob and Cy end as.\<close>

definition record_cy :: lead_record where
  "record_cy =
     ([(''_id'', JStr ''1''), (''email'', JStr ''b@x.com''),
       (''entryDate'', JStr ''2020-01-02''), (''name'', JStr ''Cy'')],
      [[(''name'', JStr ''Bob'')],
       [(''email'', JStr ''a@x.com''), (''entryDate'', JStr ''2020-01-01''),
        (''name'', JStr ''Al'')]])"

text \<open>The record of the leads of Al and Bob, and what a run of \<^verbatim>\<open>writeLog\<close> makes of it.\<close>

definition record_bob :: lead_record where
  "record_bob =
     ([(''_id'', JStr ''1''), (''email'', JStr ''b@x.com''),
       (''entryDate'', JStr ''2020-01-02''), (''name'', JStr ''Bob'')],
      [[(''email'', JStr ''a@x.com''), (''entryDate'', JStr ''2020-01-01''),
        (''name'', JStr ''Al'')]])"

definition record_bob_shown :: lead_record where
  "record_bob_shown =
     ([(''_id'', JStr ''1''), (''email'', JStr ''a@x.com ==> b@x.com''),
       (''entryDate'', JStr ''2020-01-01 ==> 2020-01-02''), (''name'', JStr ''Al ==> Bob'')],
      [[(''email'', JStr ''a@x.com''), (''entryDate'', JStr ''2020-01-01''),
        (''name'', JStr ''Al'')]])"

text \<open>A lead without \<^verbatim>\<open>_id\<close> that has the \<^verbatim>\<open>email\<close> of Al.\<close>

definition lead_z :: obj where
  "lead_z = [(''email'', JStr ''a@x.com''), (''entryDate'', JStr ''2020-01-02''),
             (''name'', JStr ''Zed'')]"

lemmas lead_defs =
  demo_parse_def lead_al_def lead_bob_def lead_old_def lead_bad_def lead_two_def
  lead_phone_def lead_x_def lead_y_def lead_cy_def lead_z_def

lemmas obj_defs =
  obj_get_def obj_set_def spread_def is_index_def is_digit_def fields_def wf_obj_def
  from_json_def

lemmas loop_defs =
  reconcile_def step_def matches_def newData_def changed_def Let_def

lemmas log_defs =
  writeLog_def apply_changes_def apply_change_def longestPropLength_def sort_names_def
  compareFn_def record_lines_def padStart_def

section \<open>Properties of objects\<close>

lemma map_of_insert_index: "map_of (insert_index k v ob) = (map_of ob)(k \<mapsto> v)"
  by (induction ob) (auto simp: fun_upd_twist)

lemma map_of_overwrite:
  "map_of (map (\<lambda>(k', v'). if k' = k then (k', v) else (k', v')) ob) k'
   = (if k' = k then (if k \<in> set (map fst ob) then Some v else None) else map_of ob k')"
  by (induction ob) force+

lemma map_of_obj_set: "map_of (obj_set ob k v) = (map_of ob)(k \<mapsto> v)"
proof (cases "k \<in> set (map fst ob)")
  case True
  then show ?thesis
    unfolding obj_set_def by (auto simp: map_of_overwrite fun_eq_iff)
next
  case False
  then show ?thesis
    by (auto simp: obj_set_def map_of_insert_index map_add_def fun_eq_iff image_iff
          split: option.splits dest!: map_of_SomeD)
qed

lemma obj_get_obj_set: "obj_get (obj_set ob k v) k' = (if k' = k then v else obj_get ob k')"
  by (simp add: obj_get_def map_of_obj_set)

section \<open>Properties of the deduplication loop\<close>

lemma findIndex_Some:
  "findIndex P xs = Some i \<Longrightarrow> i < length xs \<and> P (xs ! i) \<and> (\<forall>j<i. \<not> P (xs ! j))"
proof (induction xs arbitrary: i)
  case Nil
  then show ?case by simp
next
  case (Cons x xs)
  show ?case
  proof (cases "P x")
    case True
    with Cons.prems show ?thesis by simp
  next
    case False
    with Cons.prems obtain i' where i': "findIndex P xs = Some i'" "i = Suc i'"
      by auto
    from Cons.IH[OF i'(1)] False i'(2) show ?thesis
      by (auto simp: nth_Cons split: nat.splits)
  qed
qed

lemma findIndex_None: "findIndex P xs = None \<longleftrightarrow> (\<forall>x\<in>set xs. \<not> P x)"
  by (induction xs) auto

lemma strict_eq_eq: "strict_eq a b \<Longrightarrow> a = b"
  by (cases a) auto

lemma strict_eq_sym: "strict_eq a b = strict_eq b a"
  by (cases a; cases b) auto

lemma obj_get_absent: "k \<notin> fields ob \<Longrightarrow> obj_get ob k = JUndefined"
  by (auto simp: fields_def obj_get_def image_iff split: option.splits dest!: map_of_SomeD)

lemma obj_get_newData_id:
  "obj_get (newData original lead) ''_id'' =
     (if strict_eq (obj_get original ''_id'') (obj_get lead ''_id'')
      then obj_get original ''_id'' else obj_get lead ''_id'')"
  by (simp add: newData_def Let_def obj_get_obj_set)

lemma obj_get_newData_email:
  "obj_get (newData original lead) ''email'' =
     (if strict_eq (obj_get original ''email'') (obj_get lead ''email'')
      then obj_get original ''email'' else obj_get lead ''email'')"
  by (simp add: newData_def Let_def obj_get_obj_set)

lemma step_merge:
  assumes "findIndex (matches lead) records = Some i"
    and "time_ge (getTime parse (obj_get lead ''entryDate''))
           (getTime parse (obj_get (fst (records ! i)) ''entryDate''))"
  shows "step parse records lead =
           records[i := (newData (fst (records ! i)) lead,
                         changed (fst (records ! i)) (newData (fst (records ! i)) lead)
                           # snd (records ! i))]"
  using assms by (simp add: step_def Let_def)

lemma step_discard:
  assumes "findIndex (matches lead) records = Some i"
    and "\<not> time_ge (getTime parse (obj_get lead ''entryDate''))
           (getTime parse (obj_get (fst (records ! i)) ''entryDate''))"
  shows "step parse records lead = records"
  using assms by (simp add: step_def Let_def)

lemma step_append:
  assumes "findIndex (matches lead) records = None"
  shows "step parse records lead = records @ [(lead, [])]"
  using assms by (simp add: step_def)

section \<open>Claims about the deduplication loop\<close>

text \<open>
  C3: in every accepted merge (a lead that matches the record at \<open>i\<close> and whose date is
  not earlier), an identity key that produced the match keeps the value of the existing
  record in the merged object, and a key that did not match takes the value of the
  incoming lead; at least one of the two keys did match. The identity key that the
  specification calls \<^verbatim>\<open>id\<close> is the field \<^verbatim>\<open>_id\<close> of the code.
\<close>

theorem merge_keeps_matched_keys:
  assumes "findIndex (matches lead) records = Some i"
    and "time_ge (getTime parse (obj_get lead ''entryDate''))
           (getTime parse (obj_get (fst (records ! i)) ''entryDate''))"
  shows "obj_get (fst (step parse records lead ! i)) ''_id'' =
           (if strict_eq (obj_get (fst (records ! i)) ''_id'') (obj_get lead ''_id'')
            then obj_get (fst (records ! i)) ''_id'' else obj_get lead ''_id'')
         \<and> obj_get (fst (step parse records lead ! i)) ''email'' =
           (if strict_eq (obj_get (fst (records ! i)) ''email'') (obj_get lead ''email'')
            then obj_get (fst (records ! i)) ''email'' else obj_get lead ''email'')
         \<and> (strict_eq (obj_get (fst (records ! i)) ''_id'') (obj_get lead ''_id'')
            \<or> strict_eq (obj_get (fst (records ! i)) ''email'') (obj_get lead ''email''))"
proof -
  from findIndex_Some[OF assms(1)] have i: "i < length records" and m: "matches lead (records ! i)"
    by auto
  have "fst (step parse records lead ! i) = newData (fst (records ! i)) lead"
    using i by (simp add: step_merge[OF assms])
  moreover from m have "strict_eq (obj_get (fst (records ! i)) ''_id'') (obj_get lead ''_id'')
            \<or> strict_eq (obj_get (fst (records ! i)) ''email'') (obj_get lead ''email'')"
    by (simp add: matches_def strict_eq_sym)
  ultimately show ?thesis
    by (simp only: obj_get_newData_id obj_get_newData_email)
qed

text \<open>
  C5: a matching lead whose \<^verbatim>\<open>entryDate\<close> gives no valid time, or that meets a record
  whose \<^verbatim>\<open>entryDate\<close> gives none, loses the comparison: the records stay as they are.
  The loop has no branch that throws: \<open>step\<close> returns the array of records in every case.
\<close>

theorem unparsable_date_never_overwrites:
  assumes "findIndex (matches lead) records = Some i"
    and "getTime parse (obj_get lead ''entryDate'') = None
         \<or> getTime parse (obj_get (fst (records ! i)) ''entryDate'') = None"
  shows "step parse records lead = records"
proof -
  from assms(2) have "\<not> time_ge (getTime parse (obj_get lead ''entryDate''))
           (getTime parse (obj_get (fst (records ! i)) ''entryDate''))"
    by (cases "getTime parse (obj_get lead ''entryDate'')") auto
  with assms(1) show ?thesis by (rule step_discard)
qed

text \<open>
  The lead of Bob meets the record of Al: the \<^verbatim>\<open>_id\<close> matched and stays, the
  \<^verbatim>\<open>email\<close> did not and is Bob's.
\<close>

theorem merge_keeps_matched_keys_witness:
  "findIndex (matches lead_bob) [(lead_al, [])] = Some 0
   \<and> time_ge (getTime demo_parse (obj_get lead_bob ''entryDate''))
        (getTime demo_parse (obj_get (fst ([(lead_al, [])] ! 0)) ''entryDate''))
   \<and> obj_get (fst (step demo_parse [(lead_al, [])] lead_bob ! 0)) ''_id'' = JStr ''1''
   \<and> obj_get (fst (step demo_parse [(lead_al, [])] lead_bob ! 0)) ''email'' = JStr ''b@x.com''"
proof -
  have h1: "findIndex (matches lead_bob) [(lead_al, [])] = Some 0"
    by (simp add: lead_defs obj_defs loop_defs)
  have h2: "time_ge (getTime demo_parse (obj_get lead_bob ''entryDate''))
        (getTime demo_parse (obj_get (fst ([(lead_al, [])] ! 0)) ''entryDate''))"
    by (simp add: lead_defs obj_defs)
  from merge_keeps_matched_keys[OF h1 h2] h1 h2 show ?thesis
    by (simp add: lead_defs obj_get_def)
qed

text \<open>The date \<^verbatim>\<open>soon\<close> does not parse, and the record of Al is not overwritten.\<close>

theorem unparsable_date_never_overwrites_witness:
  "findIndex (matches lead_bad) [(lead_al, [])] = Some 0
   \<and> getTime demo_parse (obj_get lead_bad ''entryDate'') = None
   \<and> step demo_parse [(lead_al, [])] lead_bad = [(lead_al, [])]"
proof -
  have h1: "findIndex (matches lead_bad) [(lead_al, [])] = Some 0"
    by (simp add: lead_defs obj_defs loop_defs)
  have h2: "getTime demo_parse (obj_get lead_bad ''entryDate'') = None"
    by (simp add: lead_defs obj_defs)
  from unparsable_date_never_overwrites[OF h1 disjI1, OF h2] h1 h2 show ?thesis
    by simp
qed





section \<open>More properties of objects and of the merge\<close>

lemma keys_insert_index:
  "set (map fst (insert_index k v xs)) = insert k (set (map fst xs))"
proof (induction xs)
  case Nil
  then show ?case by simp
next
  case (Cons a xs)
  obtain k' v' where a: "a = (k', v')" by (cases a)
  show ?case
  proof (cases "is_index k' \<and> dec_val k' < dec_val k")
    case True
    with Cons a show ?thesis by (simp add: insert_commute)
  next
    case False
    with a show ?thesis by auto
  qed
qed

lemma keys_overwrite:
  "map fst (map (\<lambda>(k', v'). if k' = k then (k', v) else (k', v')) xs) = map fst xs"
  by (induction xs) auto

lemma fields_obj_set: "fields (obj_set ob k v) = insert k (fields ob)"
  unfolding fields_def obj_set_def
  by (simp add: keys_insert_index keys_overwrite insert_absorb del: set_map map_map)

lemma distinct_insert_index:
  "distinct (map fst xs) \<Longrightarrow> k \<notin> set (map fst xs) \<Longrightarrow> distinct (map fst (insert_index k v xs))"
proof (induction xs)
  case Nil
  then show ?case by simp
next
  case (Cons a xs)
  obtain k' v' where a: "a = (k', v')" by (cases a)
  show ?case
  proof (cases "is_index k' \<and> dec_val k' < dec_val k")
    case True
    with Cons a show ?thesis by (auto simp add: keys_insert_index simp del: set_map)
  next
    case False
    with Cons.prems a show ?thesis by auto
  qed
qed

lemma wf_obj_set: "wf_obj ob \<Longrightarrow> wf_obj (obj_set ob k v)"
  unfolding wf_obj_def obj_set_def
  by (simp add: distinct_insert_index keys_overwrite del: set_map map_map)

lemma map_of_foldl_set:
  "map_of (foldl (\<lambda>acc (k, v). obj_set acc k v) acc xs) = map_of acc ++ map_of (rev xs)"
  by (induction xs arbitrary: acc) (auto simp: map_of_obj_set map_add_def fun_eq_iff split: option.splits)

lemma fields_foldl_set:
  "fields (foldl (\<lambda>acc (k, v). obj_set acc k v) acc xs) = fields acc \<union> fields xs"
proof (induction xs arbitrary: acc)
  case Nil
  then show ?case by (simp add: fields_def)
next
  case (Cons a xs)
  then show ?case by (cases a) (auto simp: fields_obj_set, auto simp: fields_def)
qed

lemma wf_foldl_set:
  "wf_obj acc \<Longrightarrow> wf_obj (foldl (\<lambda>acc (k, v). obj_set acc k v) acc xs)"
  by (induction xs arbitrary: acc) (auto simp: wf_obj_set)

lemma map_of_rev_distinct: "distinct (map fst xs) \<Longrightarrow> map_of (rev xs) = map_of xs"
proof (induction xs)
  case Nil
  then show ?case by simp
next
  case (Cons a xs)
  obtain k v where a: "a = (k, v)" by (cases a)
  from Cons.prems a have "map_of xs k = None"
    by (simp add: map_of_eq_None_iff)
  with Cons a show ?case
    by (auto simp: map_add_def fun_eq_iff split: option.splits)
qed

lemma obj_get_spread: "wf_obj lead \<Longrightarrow> obj_get (spread lead) k = obj_get lead k"
  by (simp add: spread_def obj_get_def map_of_foldl_set map_of_rev_distinct wf_obj_def)

lemma fields_spread: "fields (spread lead) = fields lead"
  by (simp add: spread_def fields_foldl_set) (simp add: fields_def)

lemma wf_spread: "wf_obj (spread lead)"
  using wf_foldl_set[of "[]" lead] by (simp add: spread_def wf_obj_def)

lemma obj_get_newData:
  assumes "wf_obj lead"
  shows "obj_get (newData original lead) k = obj_get lead k"
proof -
  have "strict_eq (obj_get original f) (obj_get lead f) \<Longrightarrow> obj_get original f = obj_get lead f" for f
    by (rule strict_eq_eq)
  then show ?thesis
    by (auto simp: newData_def Let_def obj_get_obj_set obj_get_spread[OF assms])
qed

lemma fields_newData: "fields (newData original lead) = fields lead \<union> {''_id'', ''email''}"
  by (auto simp: newData_def Let_def fields_obj_set fields_spread)

lemma wf_newData: "wf_obj (newData original lead)"
  by (simp add: newData_def Let_def wf_obj_set wf_spread)

lemma map_of_foldl_cond_set:
  "map_of (foldl (\<lambda>acc (key, val). if P key val then obj_set acc key val else acc) acc xs)
   = map_of acc ++ map_of (rev (filter (\<lambda>(key, val). P key val) xs))"
  by (induction xs arbitrary: acc)
     (auto simp: map_of_obj_set map_add_def fun_eq_iff split: option.splits)

lemma wf_foldl_cond_set:
  "wf_obj acc \<Longrightarrow>
   wf_obj (foldl (\<lambda>acc (key, val). if P key val then obj_set acc key val else acc) acc xs)"
  by (induction xs arbitrary: acc) (auto simp: wf_obj_set)

lemma map_of_filter_distinct:
  "distinct (map fst xs) \<Longrightarrow>
   map_of (filter (\<lambda>(key, val). P key val) xs) k =
     (case map_of xs k of None \<Rightarrow> None | Some v \<Rightarrow> if P k v then Some v else None)"
proof (induction xs)
  case Nil
  then show ?case by simp
next
  case (Cons a xs)
  obtain k' v' where a: "a = (k', v')" by (cases a)
  from Cons.prems a have "map_of xs k' = None"
    by (simp add: map_of_eq_None_iff)
  with Cons a show ?case by (auto split: option.splits)
qed

lemma map_of_changed:
  assumes "wf_obj original"
  shows "map_of (changed original nd) k =
           (if k \<in> fields original \<and> \<not> strict_eq (obj_get nd k) (obj_get original k)
            then Some (obj_get original k) else None)"
proof -
  let ?P = "\<lambda>key val. \<not> strict_eq (obj_get nd key) val"
  from assms have d: "distinct (map fst original)" by (simp add: wf_obj_def)
  then have "distinct (map fst (filter (\<lambda>(key, val). ?P key val) original))"
    by (rule distinct_map_filter)
  then have "map_of (changed original nd) k = map_of (filter (\<lambda>(key, val). ?P key val) original) k"
    by (simp add: changed_def map_of_foldl_cond_set map_of_rev_distinct)
  also have "\<dots> = (case map_of original k of None \<Rightarrow> None
                     | Some v \<Rightarrow> if ?P k v then Some v else None)"
    using d by (rule map_of_filter_distinct)
  also have "\<dots> = (if k \<in> fields original \<and> \<not> strict_eq (obj_get nd k) (obj_get original k)
            then Some (obj_get original k) else None)"
  proof (cases "map_of original k")
    case None
    then have "k \<notin> fields original"
      by (simp add: fields_def map_of_eq_None_iff)
    with None show ?thesis by simp
  next
    case (Some v)
    then have "k \<in> fields original"
      unfolding fields_def by (metis map_of_eq_None_iff option.distinct(1) set_map)
    with Some show ?thesis by (simp add: obj_get_def)
  qed
  finally show ?thesis .
qed

lemma wf_changed: "wf_obj (changed original nd)"
  unfolding changed_def by (rule wf_foldl_cond_set) (simp add: wf_obj_def)

section \<open>Claims about an accepted or discarded lead\<close>

text \<open>
  C2: for a lead that matches the record at \<open>i\<close>, with both \<^verbatim>\<open>entryDate\<close> values
  giving a time: when the incoming time is strictly earlier, the lead is discarded and the
  array of records (so the matched record, its data and its changes) is unchanged; when
  it is greater or equal, the data of the incoming lead becomes the current data of the
  record: every field reads as in the lead. The merged object has the lead's own
  properties and always \<^verbatim>\<open>_id\<close> and \<^verbatim>\<open>email\<close>; no record is added and no other
  record changes.
\<close>

theorem stale_discarded_else_replaced:
  assumes "findIndex (matches lead) records = Some i"
    and "getTime parse (obj_get lead ''entryDate'') = Some t_in"
    and "getTime parse (obj_get (fst (records ! i)) ''entryDate'') = Some t_cur"
    and "wf_obj lead"
  shows "(t_in < t_cur \<longrightarrow> step parse records lead = records)
       \<and> (t_cur \<le> t_in \<longrightarrow>
            (\<forall>k. obj_get (fst (step parse records lead ! i)) k = obj_get lead k)
            \<and> fields (fst (step parse records lead ! i)) = fields lead \<union> {''_id'', ''email''}
            \<and> length (step parse records lead) = length records
            \<and> (\<forall>j. j \<noteq> i \<longrightarrow> step parse records lead ! j = records ! j))"
proof (cases "t_in < t_cur")
  case True
  with assms(2,3) have "\<not> time_ge (getTime parse (obj_get lead ''entryDate''))
           (getTime parse (obj_get (fst (records ! i)) ''entryDate''))"
    by simp
  with assms(1) have "step parse records lead = records" by (rule step_discard)
  with True show ?thesis by simp
next
  case False
  with assms(2,3) have "time_ge (getTime parse (obj_get lead ''entryDate''))
           (getTime parse (obj_get (fst (records ! i)) ''entryDate''))"
    by simp
  note m = step_merge[OF assms(1) this]
  from findIndex_Some[OF assms(1)] have i: "i < length records" by simp
  from i have "fst (step parse records lead ! i) = newData (fst (records ! i)) lead"
    by (simp add: m)
  moreover have "length (step parse records lead) = length records"
    by (simp add: m)
  moreover have "\<forall>j. j \<noteq> i \<longrightarrow> step parse records lead ! j = records ! j"
    by (simp add: m)
  ultimately show ?thesis
    using False by (simp add: obj_get_newData[OF assms(4)] fields_newData)
qed

text \<open>
  C4: in an accepted merge the change-set is put at the front of the changes of the
  record, and it maps exactly the fields of the previous data whose value in the merged
  data differs (under \<^verbatim>\<open>!==\<close>) from the previous value, each to its previous value.
  A field that only the new data has is therefore not recorded.
\<close>

theorem change_set_records_previous_values:
  assumes "findIndex (matches lead) records = Some i"
    and "time_ge (getTime parse (obj_get lead ''entryDate''))
           (getTime parse (obj_get (fst (records ! i)) ''entryDate''))"
    and "wf_obj (fst (records ! i))"
  shows "snd (step parse records lead ! i) = hd (snd (step parse records lead ! i)) # snd (records ! i)
       \<and> (\<forall>k. map_of (hd (snd (step parse records lead ! i))) k =
            (if k \<in> fields (fst (records ! i))
                \<and> \<not> strict_eq (obj_get (fst (step parse records lead ! i)) k)
                               (obj_get (fst (records ! i)) k)
             then Some (obj_get (fst (records ! i)) k) else None))
       \<and> wf_obj (hd (snd (step parse records lead ! i)))"
proof -
  from findIndex_Some[OF assms(1)] have i: "i < length records" by simp
  let ?nd = "newData (fst (records ! i)) lead"
  from i have "step parse records lead ! i
                 = (?nd, changed (fst (records ! i)) ?nd # snd (records ! i))"
    by (simp add: step_merge[OF assms(1,2)])
  then show ?thesis
    by (simp add: map_of_changed[OF assms(3)] wf_changed)
qed

text \<open>
  The lead of December 2019 is stale against the record of Al; the lead of Bob, a day later
  than Al, replaces it.
\<close>

theorem stale_discarded_else_replaced_witness:
  "findIndex (matches lead_old) [(lead_al, [])] = Some 0
   \<and> getTime demo_parse (obj_get lead_old ''entryDate'') = Some 1575158400000
   \<and> getTime demo_parse (obj_get (fst ([(lead_al, [])] ! 0)) ''entryDate'') = Some 1577836800000
   \<and> wf_obj lead_old
   \<and> step demo_parse [(lead_al, [])] lead_old = [(lead_al, [])]
   \<and> findIndex (matches lead_bob) [(lead_al, [])] = Some 0
   \<and> getTime demo_parse (obj_get lead_bob ''entryDate'') = Some 1577923200000
   \<and> wf_obj lead_bob
   \<and> obj_get (fst (step demo_parse [(lead_al, [])] lead_bob ! 0)) ''name'' = JStr ''Bob''
   \<and> obj_get (fst (step demo_parse [(lead_al, [])] lead_bob ! 0)) ''email'' = JStr ''b@x.com''
   \<and> length (step demo_parse [(lead_al, [])] lead_bob) = 1"
proof -
  have a1: "findIndex (matches lead_old) [(lead_al, [])] = Some 0"
    by (simp add: lead_defs obj_defs loop_defs)
  have a2: "getTime demo_parse (obj_get lead_old ''entryDate'') = Some 1575158400000"
    by (simp add: lead_defs obj_defs)
  have a3: "getTime demo_parse (obj_get (fst ([(lead_al, [])] ! 0)) ''entryDate'') = Some 1577836800000"
    by (simp add: lead_defs obj_defs)
  have a4: "wf_obj lead_old"
    by (simp add: lead_defs obj_defs)
  have b1: "findIndex (matches lead_bob) [(lead_al, [])] = Some 0"
    by (simp add: lead_defs obj_defs loop_defs)
  have b2: "getTime demo_parse (obj_get lead_bob ''entryDate'') = Some 1577923200000"
    by (simp add: lead_defs obj_defs)
  have b4: "wf_obj lead_bob"
    by (simp add: lead_defs obj_defs)
  from stale_discarded_else_replaced[OF a1 a2 a3 a4]
  have stale: "step demo_parse [(lead_al, [])] lead_old = [(lead_al, [])]"
    by simp
  from stale_discarded_else_replaced[OF b1 b2 a3 b4]
  have fresh: "(\<forall>k. obj_get (fst (step demo_parse [(lead_al, [])] lead_bob ! 0)) k = obj_get lead_bob k)
      \<and> length (step demo_parse [(lead_al, [])] lead_bob) = length [(lead_al, [] :: obj list)]"
    by simp
  have "obj_get lead_bob ''name'' = JStr ''Bob''" "obj_get lead_bob ''email'' = JStr ''b@x.com''"
    by (simp_all add: lead_defs obj_defs)
  with fresh stale a1 a2 a3 a4 b1 b2 b4 show ?thesis by simp
qed

text \<open>
  Bob over Al: the previous \<^verbatim>\<open>name\<close> is recorded, the unchanged \<^verbatim>\<open>_id\<close> is not.
\<close>

theorem change_set_records_previous_values_witness:
  "findIndex (matches lead_bob) [(lead_al, [])] = Some 0
   \<and> time_ge (getTime demo_parse (obj_get lead_bob ''entryDate''))
        (getTime demo_parse (obj_get (fst ([(lead_al, [])] ! 0)) ''entryDate''))
   \<and> wf_obj (fst ([(lead_al, [])] ! 0))
   \<and> snd (step demo_parse [(lead_al, [])] lead_bob ! 0)
       = [hd (snd (step demo_parse [(lead_al, [])] lead_bob ! 0))]
   \<and> map_of (hd (snd (step demo_parse [(lead_al, [])] lead_bob ! 0))) ''name'' = Some (JStr ''Al'')
   \<and> map_of (hd (snd (step demo_parse [(lead_al, [])] lead_bob ! 0))) ''_id'' = None"
proof -
  have h1: "findIndex (matches lead_bob) [(lead_al, [])] = Some 0"
    by (simp add: lead_defs obj_defs loop_defs)
  have h2: "time_ge (getTime demo_parse (obj_get lead_bob ''entryDate''))
        (getTime demo_parse (obj_get (fst ([(lead_al, [])] ! 0)) ''entryDate''))"
    by (simp add: lead_defs obj_defs)
  have h3: "wf_obj (fst ([(lead_al, [])] ! 0))"
    by (simp add: lead_defs obj_defs)
  have n: "obj_get (fst (step demo_parse [(lead_al, [])] lead_bob ! 0)) ''name'' = JStr ''Bob''"
    and i: "obj_get (fst (step demo_parse [(lead_al, [])] lead_bob ! 0)) ''_id'' = JStr ''1''"
    by (simp_all add: lead_defs obj_defs loop_defs)
  have o: "obj_get lead_al ''name'' = JStr ''Al''" "obj_get lead_al ''_id'' = JStr ''1''"
    "''name'' \<in> fields lead_al"
    by (simp_all add: lead_defs obj_defs)
  from change_set_records_previous_values[OF h1 h2 h3] n i o h1 h2 h3 show ?thesis
    by simp
qed

section \<open>Uniqueness of the identity keys\<close>

lemma matches_sym: "matches a (b, x) = matches b (a, y)"
  by (auto simp: matches_def strict_eq_sym)

lemma matches_newData:
  "matches (newData original lead) r \<Longrightarrow> matches original r \<or> matches lead r"
  by (auto simp: matches_def obj_get_newData_id obj_get_newData_email split: if_splits)

lemma filter_le_one_unique:
  assumes "length (filter P xs) \<le> 1" "i < length xs" "j < length xs" "P (xs ! i)" "P (xs ! j)"
  shows "i = j"
proof -
  let ?S = "{n. n < length xs \<and> P (xs ! n)}"
  have "card ?S \<le> Suc 0"
    using assms(1) by (simp add: length_filter_conv_card)
  moreover have "finite ?S" by simp
  ultimately have "\<forall>a\<in>?S. \<forall>b\<in>?S. a = b"
    by (simp only: card_le_Suc0_iff_eq)
  with assms(2-5) show ?thesis by blast
qed

lemma keys_unique_step:
  assumes ku: "keys_unique records"
    and one: "length (filter (matches lead) records) \<le> 1"
  shows "keys_unique (step parse records lead)"
proof (cases "findIndex (matches lead) records")
  case None
  then have nm: "\<forall>r\<in>set records. \<not> matches lead r"
    by (simp add: findIndex_None)
  have "\<not> matches (fst ((records @ [(lead, [])]) ! i)) ((records @ [(lead, [])]) ! j)"
    if "i < Suc (length records)" "j < Suc (length records)" "i \<noteq> j" for i j
  proof (cases "i < length records")
    case True
    note i = this
    show ?thesis
    proof (cases "j < length records")
      case True
      with i ku that(3) show ?thesis by (simp add: keys_unique_def nth_append)
    next
      case False
      with that have j: "j = length records" by simp
      from nm i have "\<not> matches lead (records ! i)" by simp
      then have "\<not> matches lead (fst (records ! i), snd (records ! i))" by simp
      then have "\<not> matches (fst (records ! i)) (lead, [])"
        using matches_sym by blast
      with i j show ?thesis by (simp add: nth_append)
    qed
  next
    case False
    with that have i: "i = length records" and j: "j < length records" by simp_all
    from nm j have "\<not> matches lead (records ! j)" by simp
    with i j show ?thesis by (simp add: nth_append)
  qed
  then show ?thesis
    by (simp add: step_append[OF None] keys_unique_def)
next
  case (Some e)
  from findIndex_Some[OF Some] have e: "e < length records" and me: "matches lead (records ! e)"
    by auto
  show ?thesis
  proof (cases "time_ge (getTime parse (obj_get lead ''entryDate''))
                  (getTime parse (obj_get (fst (records ! e)) ''entryDate''))")
    case False
    with Some ku show ?thesis by (simp add: step_discard)
  next
    case True
    let ?nd = "newData (fst (records ! e)) lead"
    let ?c = "changed (fst (records ! e)) ?nd # snd (records ! e)"
    have other: "\<not> matches ?nd (records ! j)" if "j < length records" "j \<noteq> e" for j
    proof
      assume "matches ?nd (records ! j)"
      then have "matches (fst (records ! e)) (records ! j) \<or> matches lead (records ! j)"
        by (rule matches_newData)
      moreover from ku e that have "\<not> matches (fst (records ! e)) (records ! j)"
        by (simp add: keys_unique_def)
      moreover from filter_le_one_unique[OF one that(1) e _ me] that(2)
      have "\<not> matches lead (records ! j)" by blast
      ultimately show False by blast
    qed
    have "\<not> matches (fst (records[e := (?nd, ?c)] ! i)) (records[e := (?nd, ?c)] ! j)"
      if "i < length records" "j < length records" "i \<noteq> j" for i j
    proof (cases "i = e")
      case True
      with that other[of j] show ?thesis by simp
    next
      case False
      note ie = this
      show ?thesis
      proof (cases "j = e")
        case True
        from other[OF that(1) ie] have "\<not> matches ?nd (fst (records ! i), snd (records ! i))"
          by simp
        then have "\<not> matches (fst (records ! i)) (?nd, ?c)"
          using matches_sym by blast
        with True ie that show ?thesis by simp
      next
        case False
        with ie ku that show ?thesis by (simp add: keys_unique_def)
      qed
    qed
    then show ?thesis
      by (simp add: step_merge[OF Some True] keys_unique_def)
  qed
qed

lemma keys_unique_run:
  "keys_unique records \<Longrightarrow> unambiguous parse records leads
   \<Longrightarrow> keys_unique (foldl (step parse) records leads)"
  by (induction leads arbitrary: records) (auto simp: keys_unique_step)

lemma reconcile_al_two_bob:
  "reconcile demo_parse [lead_al, lead_two, lead_bob] =
     [([(''_id'', JStr ''1''), (''email'', JStr ''b@x.com''),
        (''entryDate'', JStr ''2020-01-02''), (''name'', JStr ''Bob'')],
       [[(''email'', JStr ''a@x.com''), (''entryDate'', JStr ''2020-01-01''),
         (''name'', JStr ''Al'')]]),
      (lead_two, [])]"
  by (simp add: lead_defs obj_defs loop_defs)

text \<open>
  C1 as stated fails. The lead of Bob has the \<^verbatim>\<open>_id\<close> of the first record and the
  \<^verbatim>\<open>email\<close> of the second one; \<^verbatim>\<open>findIndex\<close> gives the first record, which takes
  Bob's \<^verbatim>\<open>email\<close>, and the two records of the result carry the same \<^verbatim>\<open>email\<close>.
\<close>

theorem shared_email_after_reconcile:
  "length (reconcile demo_parse [lead_al, lead_two, lead_bob]) = 2
   \<and> obj_get (fst (reconcile demo_parse [lead_al, lead_two, lead_bob] ! 0)) ''email'' = JStr ''b@x.com''
   \<and> obj_get (fst (reconcile demo_parse [lead_al, lead_two, lead_bob] ! 1)) ''email'' = JStr ''b@x.com''
   \<and> \<not> keys_unique (reconcile demo_parse [lead_al, lead_two, lead_bob])"
proof -
  define R where "R = reconcile demo_parse [lead_al, lead_two, lead_bob]"
  have len: "length R = 2"
    by (simp add: R_def reconcile_al_two_bob)
  have e0: "obj_get (fst (R ! 0)) ''email'' = JStr ''b@x.com''"
    by (simp add: R_def reconcile_al_two_bob) (simp add: obj_get_def)
  have e1: "obj_get (fst (R ! 1)) ''email'' = JStr ''b@x.com''"
    by (simp add: R_def reconcile_al_two_bob) (simp add: obj_get_def lead_two_def)
  from e0 e1 have m: "matches (fst (R ! 0)) (R ! 1)"
    by (simp add: matches_def)
  have "\<not> keys_unique R"
  proof
    assume "keys_unique R"
    then have "\<forall>j < length R. 0 \<noteq> j \<longrightarrow> \<not> matches (fst (R ! 0)) (R ! j)"
      unfolding keys_unique_def using len by simp
    with len have "\<not> matches (fst (R ! 0)) (R ! 1)" by simp
    with m show False by simp
  qed
  with len e0 e1 show ?thesis by (simp add: R_def)
qed

text \<open>
  C1, amended: when every incoming lead matches at most one of the records of its moment,
  no two records of the result share a value of \<^verbatim>\<open>_id\<close> or of \<^verbatim>\<open>email\<close>.
\<close>

theorem unambiguous_run_keys_unique:
  assumes "unambiguous parse [] leads"
  shows "keys_unique (reconcile parse leads)"
  unfolding reconcile_def using assms by (intro keys_unique_run) (simp_all add: keys_unique_def)

text \<open>A run with two records, one of them merged and then met by a stale lead.\<close>

theorem unambiguous_run_keys_unique_witness:
  "unambiguous demo_parse [] [lead_al, lead_x, lead_bob, lead_old]
   \<and> length (reconcile demo_parse [lead_al, lead_x, lead_bob, lead_old]) = 2
   \<and> keys_unique (reconcile demo_parse [lead_al, lead_x, lead_bob, lead_old])"
proof -
  have h: "unambiguous demo_parse [] [lead_al, lead_x, lead_bob, lead_old]"
    by (simp add: lead_defs obj_defs loop_defs)
  have l: "length (reconcile demo_parse [lead_al, lead_x, lead_bob, lead_old]) = 2"
    by (simp add: lead_defs obj_defs loop_defs)
  from unambiguous_run_keys_unique[OF h] h l show ?thesis by simp
qed

section \<open>Reverting the change-sets\<close>

lemma obj_get_revert_change:
  "obj_get (revert_change x c) k = (case map_of (rev c) k of None \<Rightarrow> obj_get x k | Some v \<Rightarrow> v)"
  by (simp add: revert_change_def obj_get_def map_of_foldl_set map_add_def split: option.splits)

lemma map_of_rev_None: "map_of (rev c) k = None \<longleftrightarrow> k \<notin> fields c"
  by (simp add: map_of_eq_None_iff fields_def)

lemma fields_append: "fields (a @ b) = fields a \<union> fields b"
  by (simp add: fields_def)

lemma obj_get_revert_cong:
  "(k \<notin> fields (concat changes) \<Longrightarrow> obj_get x k = obj_get y k)
   \<Longrightarrow> obj_get (revert x changes) k = obj_get (revert y changes) k"
proof (induction changes arbitrary: x y)
  case Nil
  then show ?case by (simp add: revert_def fields_def)
next
  case (Cons c cs)
  have "obj_get (revert_change x c) k = obj_get (revert_change y c) k"
    if "k \<notin> fields (concat cs)"
  proof (cases "map_of (rev c) k")
    case None
    then have "k \<notin> fields c" by (simp add: map_of_rev_None)
    with that have "k \<notin> fields (concat (c # cs))" by (simp add: fields_append)
    then have "obj_get x k = obj_get y k" by (rule Cons.prems)
    with None show ?thesis by (simp add: obj_get_revert_change)
  next
    case (Some v)
    then show ?thesis by (simp add: obj_get_revert_change)
  qed
  then have "obj_get (revert (revert_change x c) cs) k = obj_get (revert (revert_change y c) cs) k"
    by (rule Cons.IH)
  then show ?case by (simp add: revert_def)
qed

lemma obj_get_present:
  "wf_obj ob \<Longrightarrow> (k, v) \<in> set ob \<Longrightarrow> obj_get ob k = v"
  by (simp add: wf_obj_def obj_get_def)

lemma fields_present: "obj_get ob k \<noteq> JUndefined \<Longrightarrow> k \<in> fields ob"
  using obj_get_absent by blast

lemma newData_undefined:
  assumes "from_json lead" and "(k, JUndefined) \<in> set (newData original lead)"
  shows "k = ''_id'' \<or> k = ''email''"
proof (rule ccontr)
  assume n: "\<not> (k = ''_id'' \<or> k = ''email'')"
  from assms(2) have "map_of (newData original lead) k = Some JUndefined"
    using wf_newData[of original lead] by (simp add: wf_obj_def)
  with n have "map_of (spread lead) k = Some JUndefined"
    by (simp add: newData_def Let_def map_of_obj_set)
  then have "map_of (rev lead) k = Some JUndefined"
    by (simp add: spread_def map_of_foldl_set)
  then have "(k, JUndefined) \<in> set lead"
    by (auto dest: map_of_SomeD)
  with assms(1) show False
    by (force simp: from_json_def)
qed

lemma history_ok_created:
  "wf_obj lead \<Longrightarrow> from_json lead \<Longrightarrow> history_ok lead (lead, [])"
  by (force simp: history_ok_def revert_def from_json_def)

lemma history_ok_merge:
  assumes ok: "history_ok created (cur, changes)"
    and js: "from_json lead"
  shows "history_ok created (newData cur lead, changed cur (newData cur lead) # changes)"
proof -
  let ?nd = "newData cur lead"
  let ?c = "changed cur ?nd"
  from ok have wf: "wf_obj cur"
    and A: "\<And>k. k \<in> fields created \<Longrightarrow> obj_get (revert cur changes) k = obj_get created k"
    and B: "\<And>k. k \<in> fields created \<Longrightarrow> k \<in> fields cur \<or> k \<in> fields (concat changes)"
    and C: "\<And>k. (k, JUndefined) \<in> set cur \<Longrightarrow> k = ''_id'' \<or> k = ''email''"
    by (auto simp: history_ok_def)
  note mc = map_of_changed[OF wf, of ?nd]
  have noted: "k \<in> fields ?c" if "k \<in> fields cur" "\<not> strict_eq (obj_get ?nd k) (obj_get cur k)" for k
  proof -
    from that have "map_of ?c k \<noteq> None" by (simp add: mc)
    then show ?thesis by (simp add: map_of_eq_None_iff fields_def)
  qed
  have kept: "k \<in> fields ?nd" if "k \<in> fields cur" "strict_eq (obj_get ?nd k) (obj_get cur k)" for k
  proof (cases "k = ''_id'' \<or> k = ''email''")
    case True
    then show ?thesis by (auto simp: fields_newData)
  next
    case False
    from that(1) obtain v where v: "(k, v) \<in> set cur" by (auto simp: fields_def)
    with C False have "v \<noteq> JUndefined" by blast
    with v wf have "obj_get cur k \<noteq> JUndefined" by (simp add: obj_get_present)
    with that(2) have "obj_get ?nd k \<noteq> JUndefined" by (auto dest: strict_eq_eq)
    then show ?thesis by (rule fields_present)
  qed
  have restore: "obj_get (revert_change ?nd ?c) k = obj_get cur k" if "k \<in> fields cur" for k
  proof (cases "strict_eq (obj_get ?nd k) (obj_get cur k)")
    case True
    then have "map_of ?c k = None" by (simp add: mc)
    moreover have "map_of (rev ?c) k = map_of ?c k"
      using wf_changed[of cur ?nd] by (simp add: map_of_rev_distinct wf_obj_def)
    ultimately show ?thesis
      using True by (auto simp: obj_get_revert_change dest: strict_eq_eq)
  next
    case False
    with that have "map_of ?c k = Some (obj_get cur k)" by (simp add: mc)
    moreover have "map_of (rev ?c) k = map_of ?c k"
      using wf_changed[of cur ?nd] by (simp add: map_of_rev_distinct wf_obj_def)
    ultimately show ?thesis by (simp add: obj_get_revert_change)
  qed
  have A': "obj_get (revert ?nd (?c # changes)) k = obj_get created k" if "k \<in> fields created" for k
  proof -
    have "obj_get (revert (revert_change ?nd ?c) changes) k = obj_get (revert cur changes) k"
    proof (rule obj_get_revert_cong)
      assume "k \<notin> fields (concat changes)"
      with B[OF that] have "k \<in> fields cur" by blast
      then show "obj_get (revert_change ?nd ?c) k = obj_get cur k" by (rule restore)
    qed
    with A[OF that] show ?thesis by (simp add: revert_def)
  qed
  have B': "k \<in> fields ?nd \<or> k \<in> fields (concat (?c # changes))" if "k \<in> fields created" for k
    using B[OF that] noted[of k] kept[of k] by (auto simp: fields_append)
  have C': "k = ''_id'' \<or> k = ''email''" if "(k, JUndefined) \<in> set ?nd" for k
    using js that by (rule newData_undefined)
  from A' B' C' show ?thesis
    unfolding history_ok_def by (simp add: wf_newData)
qed

lemma history_step:
  assumes inv: "list_all2 history_ok cs rs"
    and wf: "wf_obj lead" and js: "from_json lead"
  shows "list_all2 history_ok
           (cs @ (case findIndex (matches lead) rs of None \<Rightarrow> [lead] | Some _ \<Rightarrow> []))
           (step parse rs lead)"
proof (cases "findIndex (matches lead) rs")
  case None
  with inv history_ok_created[OF wf js] show ?thesis
    by (simp add: step_append list_all2_appendI)
next
  case (Some e)
  from findIndex_Some[OF Some] have e: "e < length rs" by simp
  show ?thesis
  proof (cases "time_ge (getTime parse (obj_get lead ''entryDate''))
                  (getTime parse (obj_get (fst (rs ! e)) ''entryDate''))")
    case False
    with Some inv show ?thesis by (simp add: step_discard)
  next
    case True
    from inv e have "history_ok (cs ! e) (fst (rs ! e), snd (rs ! e))"
      by (simp add: list_all2_nthD2)
    then have "history_ok (cs ! e)
                 (newData (fst (rs ! e)) lead,
                  changed (fst (rs ! e)) (newData (fst (rs ! e)) lead) # snd (rs ! e))"
      using js by (rule history_ok_merge)
    with inv have "list_all2 history_ok (cs[e := cs ! e])
            (rs[e := (newData (fst (rs ! e)) lead,
                      changed (fst (rs ! e)) (newData (fst (rs ! e)) lead) # snd (rs ! e))])"
      by (rule list_all2_update_cong)
    with Some True show ?thesis by (simp add: step_merge)
  qed
qed

lemma history_run:
  "list_all2 history_ok cs rs \<Longrightarrow> \<forall>lead\<in>set leads. wf_obj lead \<and> from_json lead
   \<Longrightarrow> list_all2 history_ok (cs @ creation_maps parse rs leads) (foldl (step parse) rs leads)"
proof (induction leads arbitrary: cs rs)
  case Nil
  then show ?case by simp
next
  case (Cons lead leads)
  from Cons.prems have "list_all2 history_ok
           (cs @ (case findIndex (matches lead) rs of None \<Rightarrow> [lead] | Some _ \<Rightarrow> []))
           (step parse rs lead)"
    by (simp add: history_step)
  from Cons.IH[OF this] Cons.prems(2) show ?case
    by (simp split: option.splits)
qed

lemma reconcile_al_phone:
  "reconcile demo_parse [lead_al, lead_phone] =
     [([(''_id'', JStr ''1''), (''email'', JStr ''a@x.com''),
        (''entryDate'', JStr ''2020-01-02''), (''name'', JStr ''Al''), (''phone'', JStr ''555'')],
       [[(''entryDate'', JStr ''2020-01-01'')]])]"
  by (simp add: lead_defs obj_defs loop_defs)

text \<open>
  C9 as stated fails. The second lead of Al adds the field \<^verbatim>\<open>phone\<close>; the change-set
  holds only the previous \<^verbatim>\<open>entryDate\<close>, since the loop over the entries of the
  original never sees a field that only the new data has. Reverting gives the created
  object with the field \<^verbatim>\<open>phone\<close> still in it.
\<close>

theorem revert_keeps_added_field:
  "creation_maps demo_parse [] [lead_al, lead_phone] = [lead_al]
   \<and> length (reconcile demo_parse [lead_al, lead_phone]) = 1
   \<and> revert (fst (reconcile demo_parse [lead_al, lead_phone] ! 0))
             (snd (reconcile demo_parse [lead_al, lead_phone] ! 0))
       = lead_al @ [(''phone'', JStr ''555'')]
   \<and> revert (fst (reconcile demo_parse [lead_al, lead_phone] ! 0))
             (snd (reconcile demo_parse [lead_al, lead_phone] ! 0)) \<noteq> lead_al
   \<and> obj_get (revert (fst (reconcile demo_parse [lead_al, lead_phone] ! 0))
             (snd (reconcile demo_parse [lead_al, lead_phone] ! 0))) ''phone'' = JStr ''555''
   \<and> obj_get lead_al ''phone'' = JUndefined"
proof -
  have c: "creation_maps demo_parse [] [lead_al, lead_phone] = [lead_al]"
    by (simp add: lead_defs obj_defs loop_defs)
  have r: "revert (fst (reconcile demo_parse [lead_al, lead_phone] ! 0))
             (snd (reconcile demo_parse [lead_al, lead_phone] ! 0))
       = lead_al @ [(''phone'', JStr ''555'')]"
    by (simp add: reconcile_al_phone revert_def revert_change_def) (simp add: obj_defs lead_al_def)
  have g: "obj_get (lead_al @ [(''phone'', JStr ''555'')]) ''phone'' = JStr ''555''"
    "obj_get lead_al ''phone'' = JUndefined"
    by (simp_all add: obj_get_def lead_al_def)
  from c r g show ?thesis by (simp add: reconcile_al_phone)
qed

text \<open>
  C9, amended: for leads parsed from JSON, the records of the result are as many as the
  leads that created one, and for every record, walking its change-sets from the most
  recent to the oldest and writing each back into the current data gives, for every field
  of the object the record was created with, the value it had at creation. (Fields that
  later merges added stay.)
\<close>

theorem revert_restores_created_fields:
  assumes "\<forall>lead\<in>set leads. wf_obj lead \<and> from_json lead"
  shows "length (creation_maps parse [] leads) = length (reconcile parse leads)
       \<and> (\<forall>i < length (reconcile parse leads). \<forall>k \<in> fields (creation_maps parse [] leads ! i).
            obj_get (revert (fst (reconcile parse leads ! i)) (snd (reconcile parse leads ! i))) k
              = obj_get (creation_maps parse [] leads ! i) k)"
proof -
  have "list_all2 history_ok ([] @ creation_maps parse [] leads) (foldl (step parse) [] leads)"
    using assms by (intro history_run) simp_all
  then have inv: "list_all2 history_ok (creation_maps parse [] leads) (reconcile parse leads)"
    by (simp add: reconcile_def)
  then have len: "length (creation_maps parse [] leads) = length (reconcile parse leads)"
    by (rule list_all2_lengthD)
  have "obj_get (revert (fst (reconcile parse leads ! i)) (snd (reconcile parse leads ! i))) k
              = obj_get (creation_maps parse [] leads ! i) k"
    if "i < length (reconcile parse leads)" "k \<in> fields (creation_maps parse [] leads ! i)" for i k
  proof -
    from inv that(1) have "history_ok (creation_maps parse [] leads ! i) (reconcile parse leads ! i)"
      by (simp add: list_all2_nthD2)
    with that(2) show ?thesis by (simp add: history_ok_def)
  qed
  with len show ?thesis by blast
qed

text \<open>Al's \<^verbatim>\<open>entryDate\<close> of creation comes back.\<close>

theorem revert_restores_created_fields_witness:
  "wf_obj lead_al \<and> from_json lead_al \<and> wf_obj lead_phone \<and> from_json lead_phone
   \<and> 0 < length (reconcile demo_parse [lead_al, lead_phone])
   \<and> creation_maps demo_parse [] [lead_al, lead_phone] ! 0 = lead_al
   \<and> ''entryDate'' \<in> fields (creation_maps demo_parse [] [lead_al, lead_phone] ! 0)
   \<and> obj_get (fst (reconcile demo_parse [lead_al, lead_phone] ! 0)) ''entryDate'' = JStr ''2020-01-02''
   \<and> obj_get (revert (fst (reconcile demo_parse [lead_al, lead_phone] ! 0))
                      (snd (reconcile demo_parse [lead_al, lead_phone] ! 0))) ''entryDate''
       = JStr ''2020-01-01''"
proof -
  have h: "\<forall>lead\<in>set [lead_al, lead_phone]. wf_obj lead \<and> from_json lead"
    by (simp add: lead_defs obj_defs)
  have l: "0 < length (reconcile demo_parse [lead_al, lead_phone])"
    by (simp add: reconcile_al_phone)
  have c: "creation_maps demo_parse [] [lead_al, lead_phone] ! 0 = lead_al"
    by (simp add: lead_defs obj_defs loop_defs)
  have f: "''entryDate'' \<in> fields (creation_maps demo_parse [] [lead_al, lead_phone] ! 0)"
    by (simp add: c) (simp add: lead_al_def fields_def)
  have g: "obj_get lead_al ''entryDate'' = JStr ''2020-01-01''"
    "obj_get (fst (reconcile demo_parse [lead_al, lead_phone] ! 0)) ''entryDate'' = JStr ''2020-01-02''"
    by (simp_all add: reconcile_al_phone) (simp_all add: obj_get_def lead_al_def)
  from revert_restores_created_fields[OF h, of demo_parse] l f
  have "obj_get (revert (fst (reconcile demo_parse [lead_al, lead_phone] ! 0))
                      (snd (reconcile demo_parse [lead_al, lead_phone] ! 0))) ''entryDate''
       = obj_get (creation_maps demo_parse [] [lead_al, lead_phone] ! 0) ''entryDate''"
    by blast
  with h l c f g show ?thesis by simp
qed

section \<open>The changelog\<close>

lemma sort_names_empty: "sort_names names = [] \<longleftrightarrow> names = []"
proof -
  have "insert_name x ys \<noteq> []" for x ys
    by (cases ys) auto
  then show ?thesis
    by (cases names) (auto simp: sort_names_def)
qed

lemma longestPropLength_empty: "longestPropLength data = Inl TypeError \<longleftrightarrow> data = []"
  using sort_names_empty[of "map fst data"]
  by (auto simp: longestPropLength_def split: list.splits)

text \<open>
  C8: the claim asks that a record with an empty field map be rendered as a well-defined
  block. The code does not do that: the lead \<^verbatim>\<open>{}\<close> becomes a record with no property,
  the sorted array of its names is empty, and \<^verbatim>\<open>[0].length\<close> throws a \<^verbatim>\<open>TypeError\<close>
  outside the \<^verbatim>\<open>try\<close> of \<^verbatim>\<open>writeLog\<close>: no changelog is produced.
\<close>

theorem empty_record_throws:
  "reconcile parse [[]] = [([], [])] \<and> writeLog (reconcile parse [[]]) = Inl TypeError"
  by (simp add: reconcile_def step_def writeLog_def apply_changes_def longestPropLength_def
      sort_names_def)

lemma to_string_prepend:
  "to_string (foldl (\<lambda>cur v. JStr (to_string v @ '' ==> '' @ to_string cur)) x vs)
   = chain (rev vs) x"
  by (induction vs arbitrary: x) (simp_all add: chain_def)

lemma prepend_is_chain:
  assumes "vs \<noteq> []"
  shows "foldl (\<lambda>cur v. JStr (to_string v @ '' ==> '' @ to_string cur)) x vs
         = JStr (chain (rev vs) x)"
proof -
  let ?g = "\<lambda>cur v. JStr (to_string v @ '' ==> '' @ to_string cur)"
  from assms obtain us u where "vs = us @ [u]"
    by (cases vs rule: rev_cases) auto
  then have "foldl ?g x vs = JStr (to_string (foldl ?g x vs))"
    by simp
  then show ?thesis by (simp only: to_string_prepend)
qed

lemma obj_get_apply_change:
  "obj_get (apply_change d c) p
   = foldl (\<lambda>cur v. JStr (to_string v @ '' ==> '' @ to_string cur)) (obj_get d p)
       (map snd (filter (\<lambda>e. fst e = p) c))"
  unfolding apply_change_def
  by (induction c arbitrary: d) (auto simp: obj_get_obj_set)

lemma obj_get_apply_changes:
  "obj_get (apply_changes d cs) p
   = foldl (\<lambda>cur v. JStr (to_string v @ '' ==> '' @ to_string cur)) (obj_get d p)
       (recorded p cs)"
  unfolding apply_changes_def recorded_def
  by (induction cs arbitrary: d) (simp_all add: obj_get_apply_change)

lemma fields_apply_change: "fields (apply_change d c) = fields d \<union> fields c"
  unfolding apply_change_def
proof (induction c arbitrary: d)
  case Nil
  then show ?case by (simp add: fields_def)
next
  case (Cons a c)
  then show ?case by (cases a) (auto simp: fields_obj_set, auto simp: fields_def)
qed

lemma fields_apply_changes: "fields (apply_changes d cs) = fields d \<union> fields (concat cs)"
  unfolding apply_changes_def
proof (induction cs arbitrary: d)
  case Nil
  then show ?case by (simp add: fields_def)
next
  case (Cons c cs)
  then show ?case by (auto simp: fields_apply_change fields_append)
qed

lemma recorded_fields: "recorded p cs \<noteq> [] \<longleftrightarrow> p \<in> fields (concat cs)"
  by (auto simp: recorded_def fields_def filter_empty_conv)

lemma apply_no_changes: "\<forall>c\<in>set cs. c = [] \<Longrightarrow> apply_changes d cs = d"
  unfolding apply_changes_def
  by (induction cs) (simp_all add: apply_change_def)

lemma fields_empty: "fields ob = {} \<longleftrightarrow> ob = []"
  by (simp add: fields_def)

lemma render_loop_throws:
  "(\<exists>e. render_loop index fullLog recs = Inl e)
   \<longleftrightarrow> (\<exists>r\<in>set recs. apply_changes (fst r) (snd r) = [])"
proof (induction recs arbitrary: index fullLog)
  case Nil
  then show ?case by simp
next
  case (Cons r recs)
  obtain d cs where r: "r = (d, cs)" by (cases r)
  show ?case
  proof (cases "apply_changes d cs = []")
    case True
    with r show ?thesis
      by (simp add: longestPropLength_def sort_names_def)
  next
    case False
    then obtain n where n: "longestPropLength (apply_changes d cs) = Inr n"
      using longestPropLength_empty[of "apply_changes d cs"]
      by (cases "longestPropLength (apply_changes d cs)") (auto intro: js_error.exhaust)
    let ?log = "(if index \<noteq> 0 then fullLog @ [CHR 0x0A] else fullLog)
                  @ concat (record_lines n (apply_changes d cs))"
    have "(\<exists>e. render_loop index fullLog (r # recs) = Inl e)
          \<longleftrightarrow> (\<exists>e. render_loop (Suc index) ?log recs = Inl e)"
      using r n by (auto simp: Let_def split: sum.splits)
    with Cons.IH[of "Suc index" ?log] False r show ?thesis by simp
  qed
qed

lemma writeLog_throws_iff:
  "writeLog records = Inl TypeError
   \<longleftrightarrow> (\<exists>r\<in>set records. fst r = [] \<and> (\<forall>c\<in>set (snd r). c = []))"
proof -
  have "apply_changes d cs = [] \<longleftrightarrow> d = [] \<and> (\<forall>c\<in>set cs. c = [])" for d cs
    using fields_apply_changes[of d cs]
    by (auto simp: fields_empty[symmetric] simp del: fields_empty) (auto simp: fields_def)
  moreover have "writeLog records = Inl TypeError \<longleftrightarrow> (\<exists>e. writeLog records = Inl e)"
    by (metis js_error.exhaust)
  ultimately show ?thesis
    by (simp add: writeLog_def render_loop_throws)
qed

lemma render_loop_records:
  "render_loop index fullLog recs = Inr (log, recs')
   \<Longrightarrow> recs' = map (\<lambda>r. (apply_changes (fst r) (snd r), snd r)) recs"
proof (induction recs arbitrary: index fullLog log recs')
  case Nil
  then show ?case by simp
next
  case (Cons r recs)
  obtain d cs where r: "r = (d, cs)" by (cases r)
  from Cons.prems r obtain n rest' where
    "render_loop (Suc index)
       ((if index \<noteq> 0 then fullLog @ [CHR 0x0A] else fullLog)
          @ concat (record_lines n (apply_changes d cs))) recs = Inr (log, rest')"
    and "recs' = (apply_changes d cs, cs) # rest'"
    by (auto simp: Let_def split: sum.splits)
  with Cons.IH r show ?case by auto
qed

lemma render_loop_extends:
  "render_loop index fullLog recs = Inr (log, recs') \<Longrightarrow> \<exists>suffix. log = fullLog @ suffix"
proof (induction recs arbitrary: index fullLog log recs')
  case Nil
  then show ?case by simp
next
  case (Cons r recs)
  obtain d cs where r: "r = (d, cs)" by (cases r)
  from Cons.prems r obtain n rest' where
    "render_loop (Suc index)
       ((if index \<noteq> 0 then fullLog @ [CHR 0x0A] else fullLog)
          @ concat (record_lines n (apply_changes d cs))) recs = Inr (log, rest')"
    by (auto simp: Let_def split: sum.splits)
  from Cons.IH[OF this] show ?case by (auto split: if_splits)
qed

lemma render_loop_blocks:
  "render_loop index fullLog recs = Inr (log, recs') \<Longrightarrow> (d, cs) \<in> set recs
   \<Longrightarrow> \<exists>n before after. longestPropLength (apply_changes d cs) = Inr n
         \<and> log = before @ concat (record_lines n (apply_changes d cs)) @ after"
proof (induction recs arbitrary: index fullLog log recs')
  case Nil
  then show ?case by simp
next
  case (Cons r recs)
  obtain d' cs' where r: "r = (d', cs')" by (cases r)
  from Cons.prems(1) r obtain n rest' where
    n: "longestPropLength (apply_changes d' cs') = Inr n"
    and tl: "render_loop (Suc index)
       ((if index \<noteq> 0 then fullLog @ [CHR 0x0A] else fullLog)
          @ concat (record_lines n (apply_changes d' cs'))) recs = Inr (log, rest')"
    by (auto simp: Let_def split: sum.splits)
  show ?case
  proof (cases "(d, cs) = r")
    case True
    from render_loop_extends[OF tl] obtain suffix where
      "log = (if index \<noteq> 0 then fullLog @ [CHR 0x0A] else fullLog)
              @ concat (record_lines n (apply_changes d' cs')) @ suffix"
      by auto
    with True r n show ?thesis by blast
  next
    case False
    with Cons.prems(2) have "(d, cs) \<in> set recs" by auto
    with Cons.IH[OF tl] show ?thesis by blast
  qed
qed

text \<open>
  C6: when \<^verbatim>\<open>writeLog\<close> returns its log, for every record and every field with at least
  one recorded change, the display value of the field is the chain of the recorded values,
  read in the reverse of their storage order (oldest first), each followed by
  \<^verbatim>\<open> ==> \<close>, and ending with the current value; and the log holds the line of the
  field, its padded name, a colon and that chain.
\<close>

theorem changelog_chain_oldest_first:
  assumes "writeLog records = Inr (log, records')"
    and "(data, changes) \<in> set records"
    and "recorded p changes \<noteq> []"
  shows "obj_get (apply_changes data changes) p
           = JStr (chain (rev (recorded p changes)) (obj_get data p))
       \<and> (\<exists>n before after.
             longestPropLength (apply_changes data changes) = Inr n
             \<and> log = before @ padStart n p @ '': ''
                       @ chain (rev (recorded p changes)) (obj_get data p) @ [CHR 0x0A] @ after)"
proof -
  let ?d = "apply_changes data changes"
  let ?ch = "chain (rev (recorded p changes)) (obj_get data p)"
  have v: "obj_get ?d p = JStr ?ch"
    by (simp only: obj_get_apply_changes prepend_is_chain[OF assms(3)])
  from assms(3) have "p \<in> fields ?d"
    by (simp add: fields_apply_changes recorded_fields)
  then have "map_of ?d p \<noteq> None"
    by (simp add: map_of_eq_None_iff fields_def)
  with v have "(p, JStr ?ch) \<in> set ?d"
    by (auto simp: obj_get_def dest: map_of_SomeD)
  from render_loop_blocks[OF assms(1)[unfolded writeLog_def] assms(2)]
  obtain n before after where n: "longestPropLength ?d = Inr n"
    and log: "log = before @ concat (record_lines n ?d) @ after"
    by blast
  from \<open>(p, JStr ?ch) \<in> set ?d\<close>
  have "padStart n p @ '': '' @ ?ch @ [CHR 0x0A] \<in> set (record_lines n ?d)"
    by (force simp: record_lines_def)
  then obtain ls1 ls2 where "record_lines n ?d = ls1 @ (padStart n p @ '': '' @ ?ch @ [CHR 0x0A]) # ls2"
    by (auto simp: in_set_conv_decomp)
  with log have "log = (before @ concat ls1) @ padStart n p @ '': '' @ ?ch @ [CHR 0x0A]
                        @ (concat ls2 @ after)"
    by simp
  with n v show ?thesis by blast
qed

text \<open>
  C7, amended: rendering keeps the change-sets of every record and replaces the current
  field map of every record by its display map; when no record has a recorded change,
  the records are unaltered and a second rendering gives the identical log.
\<close>

theorem render_rewrites_current_maps:
  assumes "writeLog records = Inr (log, records')"
  shows "map snd records' = map snd records
       \<and> map fst records' = map (\<lambda>r. apply_changes (fst r) (snd r)) records
       \<and> ((\<forall>r\<in>set records. \<forall>c\<in>set (snd r). c = [])
            \<longrightarrow> records' = records \<and> writeLog records' = Inr (log, records'))"
proof -
  from assms have eq: "records' = map (\<lambda>r. (apply_changes (fst r) (snd r), snd r)) records"
    unfolding writeLog_def by (rule render_loop_records)
  have "records' = records" if "\<forall>r\<in>set records. \<forall>c\<in>set (snd r). c = []"
  proof -
    from that have "\<forall>r\<in>set records. (apply_changes (fst r) (snd r), snd r) = r"
      by (simp add: apply_no_changes)
    then have "map (\<lambda>r. (apply_changes (fst r) (snd r), snd r)) records = records"
      by (simp add: map_idI)
    with eq show ?thesis by simp
  qed
  with assms eq show ?thesis by (auto simp: comp_def)
qed

text \<open>The names of the record of Cy, from Al over Bob to Cy.\<close>

theorem changelog_chain_oldest_first_witness:
  "writeLog [record_cy] =
     Inr (''      _id: 1\<newline>    email: a@x.com ==> b@x.com\<newline>entryDate: 2020-01-01 ==> 2020-01-02\<newline>     name: Al ==> Bob ==> Cy\<newline>'',
          [(apply_changes (fst record_cy) (snd record_cy), snd record_cy)])
   \<and> (fst record_cy, snd record_cy) \<in> set [record_cy]
   \<and> recorded ''name'' (snd record_cy) = [JStr ''Bob'', JStr ''Al'']
   \<and> obj_get (apply_changes (fst record_cy) (snd record_cy)) ''name'' = JStr ''Al ==> Bob ==> Cy''
   \<and> (\<exists>n before after.
         ''      _id: 1\<newline>    email: a@x.com ==> b@x.com\<newline>entryDate: 2020-01-01 ==> 2020-01-02\<newline>     name: Al ==> Bob ==> Cy\<newline>''
         = before @ padStart n ''name'' @ '': '' @ ''Al ==> Bob ==> Cy'' @ [CHR 0x0A] @ after)"
proof -
  have w: "writeLog [record_cy] =
     Inr (''      _id: 1\<newline>    email: a@x.com ==> b@x.com\<newline>entryDate: 2020-01-01 ==> 2020-01-02\<newline>     name: Al ==> Bob ==> Cy\<newline>'',
          [(apply_changes (fst record_cy) (snd record_cy), snd record_cy)])"
    by (simp add: record_cy_def log_defs obj_defs)
  have m: "(fst record_cy, snd record_cy) \<in> set [record_cy]" by simp
  have r: "recorded ''name'' (snd record_cy) = [JStr ''Bob'', JStr ''Al'']"
    by (simp add: recorded_def record_cy_def)
  then have r': "recorded ''name'' (snd record_cy) \<noteq> []" by simp
  have c: "chain (rev (recorded ''name'' (snd record_cy))) (obj_get (fst record_cy) ''name'')
           = ''Al ==> Bob ==> Cy''"
    by (simp add: r) (simp add: chain_def record_cy_def obj_get_def)
  note t = changelog_chain_oldest_first[OF w m r', unfolded c]
  from t have t1: "obj_get (apply_changes (fst record_cy) (snd record_cy)) ''name''
                   = JStr ''Al ==> Bob ==> Cy''"
    by (rule conjunct1)
  from t have t2: "\<exists>n before after.
         ''      _id: 1\<newline>    email: a@x.com ==> b@x.com\<newline>entryDate: 2020-01-01 ==> 2020-01-02\<newline>     name: Al ==> Bob ==> Cy\<newline>''
         = before @ padStart n ''name'' @ '': '' @ ''Al ==> Bob ==> Cy'' @ [CHR 0x0A] @ after"
    by blast
  from w m r t1 t2 show ?thesis by blast
qed

text \<open>
  C7 as stated fails: \<^verbatim>\<open>writeLog\<close> assigns the chains into the data objects of the
  records. After one run the record of Bob holds the chains as its values, and a second run
  over the same records gives another log, with the recorded values once more in front.
\<close>

theorem second_render_differs:
  "reconcile demo_parse [lead_al, lead_bob] = [record_bob]
   \<and> writeLog [record_bob] =
       Inr (''      _id: 1\<newline>    email: a@x.com ==> b@x.com\<newline>entryDate: 2020-01-01 ==> 2020-01-02\<newline>     name: Al ==> Bob\<newline>'',
            [record_bob_shown])
   \<and> record_bob_shown \<noteq> record_bob
   \<and> writeLog [record_bob_shown] =
       Inr (''      _id: 1\<newline>    email: a@x.com ==> a@x.com ==> b@x.com\<newline>entryDate: 2020-01-01 ==> 2020-01-01 ==> 2020-01-02\<newline>     name: Al ==> Al ==> Bob\<newline>'',
            [([(''_id'', JStr ''1''), (''email'', JStr ''a@x.com ==> a@x.com ==> b@x.com''),
               (''entryDate'', JStr ''2020-01-01 ==> 2020-01-01 ==> 2020-01-02''),
               (''name'', JStr ''Al ==> Al ==> Bob'')],
              snd record_bob)])
   \<and> map_sum id fst (writeLog [record_bob_shown]) \<noteq> map_sum id fst (writeLog [record_bob])"
proof -
  have a: "reconcile demo_parse [lead_al, lead_bob] = [record_bob]"
    by (simp add: record_bob_def lead_defs obj_defs loop_defs)
  have b: "writeLog [record_bob] =
       Inr (''      _id: 1\<newline>    email: a@x.com ==> b@x.com\<newline>entryDate: 2020-01-01 ==> 2020-01-02\<newline>     name: Al ==> Bob\<newline>'',
            [record_bob_shown])"
    by (simp add: record_bob_def record_bob_shown_def log_defs obj_defs)
  have c: "record_bob_shown \<noteq> record_bob"
    by (simp add: record_bob_def record_bob_shown_def)
  have d: "writeLog [record_bob_shown] =
       Inr (''      _id: 1\<newline>    email: a@x.com ==> a@x.com ==> b@x.com\<newline>entryDate: 2020-01-01 ==> 2020-01-01 ==> 2020-01-02\<newline>     name: Al ==> Al ==> Bob\<newline>'',
            [([(''_id'', JStr ''1''), (''email'', JStr ''a@x.com ==> a@x.com ==> b@x.com''),
               (''entryDate'', JStr ''2020-01-01 ==> 2020-01-01 ==> 2020-01-02''),
               (''name'', JStr ''Al ==> Al ==> Bob'')],
              snd record_bob)])"
    by (simp add: record_bob_def record_bob_shown_def log_defs obj_defs)
  have e: "map_sum id fst (writeLog [record_bob_shown]) \<noteq> map_sum id fst (writeLog [record_bob])"
    by (simp add: b d)
  from a b c d e show ?thesis by blast
qed

text \<open>Two records without a recorded change: rendered and unaltered.\<close>

theorem render_rewrites_current_maps_witness:
  "writeLog [(lead_al, []), (lead_two, [[]])] =
     Inr (''      _id: 1\<newline>    email: a@x.com\<newline>entryDate: 2020-01-01\<newline>     name: Al\<newline>\<newline>      _id: 2\<newline>    email: b@x.com\<newline>entryDate: 2020-01-01\<newline>     name: Bea\<newline>'',
          [(lead_al, []), (lead_two, [[]])])
   \<and> concat (snd (lead_al, [] :: obj list)) = [] \<and> concat (snd (lead_two, [[] :: obj])) = []
   \<and> map fst [(lead_al, [] :: obj list), (lead_two, [[]])]
       = map (\<lambda>r. apply_changes (fst r) (snd r)) [(lead_al, []), (lead_two, [[]])]"
proof -
  have w: "writeLog [(lead_al, []), (lead_two, [[]])] =
     Inr (''      _id: 1\<newline>    email: a@x.com\<newline>entryDate: 2020-01-01\<newline>     name: Al\<newline>\<newline>      _id: 2\<newline>    email: b@x.com\<newline>entryDate: 2020-01-01\<newline>     name: Bea\<newline>'',
          [(lead_al, []), (lead_two, [[]])])"
    by (simp add: lead_defs log_defs obj_defs)
  have h: "\<forall>r\<in>set [(lead_al, [] :: obj list), (lead_two, [[]])]. \<forall>c\<in>set (snd r). c = []"
    by simp
  from render_rewrites_current_maps[OF w] w h show ?thesis
    by simp
qed

section \<open>The padding width\<close>

text \<open>
  The first name of the sorted array has the greatest length among the names, so the
  width that the lines are padded to is the length of the longest property name.
\<close>

lemma insert_name_head:
  "length (hd (insert_name x ys)) = (if ys = [] then length x else max (length x) (length (hd ys)))"
  by (cases ys) (auto simp: compareFn_def)

lemma insert_name_not_empty: "insert_name x ys \<noteq> []"
  by (cases ys) auto

lemma sort_names_head:
  "names \<noteq> [] \<Longrightarrow> length (hd (sort_names names)) = Max (length ` set names)"
proof (induction names)
  case Nil
  then show ?case by simp
next
  case (Cons x names)
  show ?case
  proof (cases "names = []")
    case True
    then show ?thesis by (simp add: sort_names_def)
  next
    case False
    with Cons.IH have "length (hd (sort_names names)) = Max (length ` set names)" by simp
    moreover from False have "sort_names names \<noteq> []" by (simp add: sort_names_empty)
    moreover have "sort_names (x # names) = insert_name x (sort_names names)"
      by (simp add: sort_names_def)
    ultimately show ?thesis
      using False by (simp add: insert_name_head)
  qed
qed

lemma longestPropLength_max:
  "data \<noteq> [] \<Longrightarrow> longestPropLength data = Inr (Max (length ` fields data))"
  using sort_names_head[of "map fst data"] sort_names_empty[of "map fst data"]
  by (auto simp: longestPropLength_def fields_def split: list.splits)

end
